theory Spec2Isabelle
  imports Main "HOL-Library.Word" "HOL-Library.AList"
begin

section \<open>JavaScript strings\<close>

text \<open>
  A JavaScript string is a sequence of UTF-16 code units and \<open>length\<close> counts code
  units.  String literals of \<open>index.ts\<close> are written with \<open>js\<close>; the three emoji of
  the casual patterns are given as their surrogate pairs.
\<close>

type_synonym jschar = "16 word"
type_synonym jsstring = "jschar list"

definition js :: "string \<Rightarrow> jsstring" where
  "js s = map (\<lambda>c. of_nat (of_char c)) s"

text \<open>
  \<open>String.prototype.toLowerCase\<close> is the host's Unicode lowercasing.  The functions
  below take it as the parameter \<open>lc\<close>; \<open>toLowerCaseASCII\<close> is what it does on
  Basic Latin text and is used where a concrete text is evaluated.
\<close>

definition toLowerCaseASCII :: "jsstring \<Rightarrow> jsstring" where
  "toLowerCaseASCII s = map (\<lambda>c. if 0x41 \<le> c \<and> c \<le> 0x5A then c + 0x20 else c) s"

text \<open>White space and line terminators: what \<open>trim()\<close> strips and \<open>\s\<close> matches.\<close>

definition isWhiteSpace :: "jschar \<Rightarrow> bool" where
  "isWhiteSpace c =
     ((0x09 \<le> c \<and> c \<le> 0x0D) \<or> c = 0x20 \<or> c = 0xA0 \<or> c = 0x1680
      \<or> (0x2000 \<le> c \<and> c \<le> 0x200A) \<or> c = 0x2028 \<or> c = 0x2029 \<or> c = 0x202F
      \<or> c = 0x205F \<or> c = 0x3000 \<or> c = 0xFEFF)"

definition trim :: "jsstring \<Rightarrow> jsstring" where
  "trim s = rev (dropWhile isWhiteSpace (rev (dropWhile isWhiteSpace s)))"

text \<open>\<open>s.includes(sub)\<close>: \<open>sub\<close> occurs in \<open>s\<close> as a contiguous run.\<close>

fun stripPrefix :: "jsstring \<Rightarrow> jsstring \<Rightarrow> jsstring option" where
  "stripPrefix [] s = Some s"
| "stripPrefix (p # ps) [] = None"
| "stripPrefix (p # ps) (c # cs) = (if p = c then stripPrefix ps cs else None)"

fun includesStr :: "jsstring \<Rightarrow> jsstring \<Rightarrow> bool" where
  "includesStr [] sub = (sub = [])"
| "includesStr (c # cs) sub =
     (if stripPrefix sub (c # cs) \<noteq> None then True else includesStr cs sub)"

text \<open>\<open>xs.join(sep)\<close>, where an \<open>undefined\<close> element reads as the empty string.\<close>

fun join :: "jsstring \<Rightarrow> jsstring option list \<Rightarrow> jsstring" where
  "join sep [] = []"
| "join sep [x] = (case x of None \<Rightarrow> [] | Some t \<Rightarrow> t)"
| "join sep (x # y # ys) = (case x of None \<Rightarrow> [] | Some t \<Rightarrow> t) @ sep @ join sep (y # ys)"

section \<open>The recall-path filter\<close>

subsection \<open>The casual patterns\<close>

text \<open>
  The eight regular expressions of \<open>casualPatterns\<close> have three shapes, all anchored
  at the start of the text:
  \<^item> \<open>/^(a|b|...)\b/\<close> is \<open>AltB [a, b, ...]\<close>;
  \<^item> \<open>/^(lit\s*(a|b|...))\b/\<close> is \<open>LitSpaceAltB lit [a, b, ...]\<close>;
  \<^item> \<open>/^(a|b|...)/\<close> is \<open>Alt [a, b, ...]\<close>.
  The matcher backtracks over the alternatives, so a pattern matches when some
  alternative is a prefix of the text and the rest of the pattern matches after it.
  \<open>\b\<close> holds at a position when exactly one of the code units before and after it
  is a word character (a missing one counts as none).
\<close>

datatype pattern =
    AltB "jsstring list"
  | LitSpaceAltB jsstring "jsstring list"
  | Alt "jsstring list"

definition isWordChar :: "jschar \<Rightarrow> bool" where
  "isWordChar c =
     ((0x30 \<le> c \<and> c \<le> 0x39) \<or> (0x41 \<le> c \<and> c \<le> 0x5A) \<or> c = 0x5F
      \<or> (0x61 \<le> c \<and> c \<le> 0x7A))"

definition lastIsWord :: "jsstring \<Rightarrow> bool" where
  "lastIsWord a = (case rev a of [] \<Rightarrow> False | c # _ \<Rightarrow> isWordChar c)"

definition firstIsWord :: "jsstring \<Rightarrow> bool" where
  "firstIsWord r = (case r of [] \<Rightarrow> False | c # _ \<Rightarrow> isWordChar c)"

definition altThenBoundary :: "jsstring \<Rightarrow> jsstring \<Rightarrow> bool" where
  "altThenBoundary s a =
     (case stripPrefix a s of
        None \<Rightarrow> False
      | Some r \<Rightarrow> lastIsWord a \<noteq> firstIsWord r)"

fun test :: "pattern \<Rightarrow> jsstring \<Rightarrow> bool" where
  "test (AltB alts) s = list_ex (altThenBoundary s) alts"
| "test (LitSpaceAltB lit alts) s =
     (case stripPrefix lit s of
        None \<Rightarrow> False
      | Some r \<Rightarrow> list_ex (altThenBoundary (dropWhile isWhiteSpace r)) alts)"
| "test (Alt alts) s = list_ex (\<lambda>a. stripPrefix a s \<noteq> None) alts"

definition casualPatterns :: "pattern list" where
  "casualPatterns =
    [AltB (map js [''hi'', ''hey'', ''hello'', ''yo'', ''sup'', ''hola'', ''howdy'', ''hiya'',
                   ''heya'']),
     LitSpaceAltB (js ''good'') (map js [''morning'', ''afternoon'', ''evening'', ''night'']),
     AltB (map js [''thanks'', ''thank you'', ''thx'', ''ty'']),
     AltB (map js [''ok'', ''okay'', ''sure'', ''got it'', ''sounds good'', ''cool'', ''nice'',
                   ''great'', ''awesome'', ''perfect'']),
     AltB (map js [''bye'', ''goodbye'', ''see you'', ''later'', ''gn'', ''ttyl'']),
     AltB (map js [''yes'', ''no'', ''yep'', ''nope'', ''yeah'', ''nah'']),
     Alt (map js [''lol'', ''lmao'', ''haha'', ''heh'']
          @ [[0xD83D, 0xDE02], [0xD83D, 0xDC4D], [0xD83D, 0xDE4F]]),
     AltB [js ''how are you'', js ''what'' @ [0x27] @ js ''s up'', js ''whats up'',
           js ''wassup'']]"

subsection \<open>\<open>hasMemoryKeywords\<close> and \<open>looksLikeCasualChat\<close>\<close>

definition memoryKeywords :: "jsstring list" where
  "memoryKeywords = map js
    [''decide'', ''decision'', ''chose'', ''choice'', ''agreed'', ''approved'',
     ''committed'', ''plan'', ''strategy'', ''priorit'', ''delegate'',
     ''what did'', ''when did'', ''who said'', ''remember'', ''last time'',
     ''previously'', ''before'', ''history'', ''recap'', ''summary'',
     ''meeting'', ''discussed'', ''update'', ''status'', ''progress'',
     ''deadline'', ''schedule'', ''budget'', ''roadmap'', ''milestone'']"

definition hasMemoryKeywords :: "jsstring \<Rightarrow> bool" where
  "hasMemoryKeywords t = list_ex (\<lambda>kw. includesStr t kw) memoryKeywords"

text \<open>The \<open>for\<close> loop over the patterns, which returns at the first one that matches.\<close>

fun matchesPattern :: "pattern list \<Rightarrow> jsstring \<Rightarrow> bool" where
  "matchesPattern [] lower = False"
| "matchesPattern (p # ps) lower = (if test p lower then True else matchesPattern ps lower)"

definition looksLikeCasualChat :: "(jsstring \<Rightarrow> jsstring) \<Rightarrow> jsstring \<Rightarrow> bool" where
  "looksLikeCasualChat lc t =
     (let lower = trim (lc t) in
      if matchesPattern casualPatterns lower then True
      else if length lower < 40 \<and> \<not> includesStr lower (js ''?'') \<and> \<not> hasMemoryKeywords lower
      then True
      else False)"

text \<open>
  The gate of the \<open>before_agent_start\<close> hook on the selected user message: the two
  early returns of the hook are \<open>False\<close> (no memory lookup), falling through is \<open>True\<close>.
\<close>

definition shouldConsultMemory :: "(jsstring \<Rightarrow> jsstring) \<Rightarrow> jsstring \<Rightarrow> bool" where
  "shouldConsultMemory lc userMessage =
     (if userMessage = [] \<or> length userMessage < 30 then False
      else if looksLikeCasualChat lc userMessage then False
      else True)"

section \<open>The capture path: buffers, timers and flushes\<close>

subsection \<open>Data\<close>

datatype role = User | Assistant

record BufferedMessage =
  role :: role
  content :: jsstring
  timestamp :: jsstring

text \<open>
  What the host hands to the \<open>agent_end\<close> hook.  The content of a message is a
  string, an array of parts, or anything else; a part has a \<open>type\<close> and maybe a
  \<open>text\<close>.  A missing \<open>session\<close>, \<open>channelId\<close>, \<open>id\<close> or \<open>messages\<close> is \<open>None\<close>.
\<close>

record contentPart =
  partType :: jsstring
  partText :: "jsstring option"

datatype messageContent = Text jsstring | Parts "contentPart list" | NoContent

record eventMessage =
  msgRole :: jsstring
  msgContent :: messageContent

record session =
  channelId :: "jsstring option"
  sessionId :: "jsstring option"

record event =
  session :: "session option"
  eventMessages :: "eventMessage list option"

text \<open>The body posted to \<open>/api/ext/extract\<close>, and how the call ends.\<close>

record extractRequest =
  messages :: "BufferedMessage list"
  source :: jsstring
  channel :: jsstring

datatype outcome = Found int | Failed

datatype logLine = Captured int | AutoCaptureFailed | BufferFull nat | ServiceStopped

text \<open>
  The module state.  \<open>messageBuffers\<close> and \<open>silenceTimers\<close> are the two JavaScript
  \<open>Map\<close>s, kept as association lists in insertion order: \<open>AList.update\<close> overwrites
  an existing key in place and adds a new key at the end, as \<open>Map.set\<close> does, and
  \<open>AList.delete\<close> is \<open>Map.delete\<close>.  \<open>pendingTimeouts\<close> is the host's table of
  timeouts that are armed and have not fired, each with the channel key its callback
  closes over; \<open>nextTimeout\<close> is the next fresh handle.  \<open>requests\<close> lists the calls
  made to the extraction collaborator, oldest first, and \<open>logged\<close> the logger calls.
\<close>

record state =
  messageBuffers :: "(jsstring \<times> BufferedMessage list) list"
  silenceTimers :: "(jsstring \<times> nat) list"
  pendingTimeouts :: "(nat \<times> jsstring) list"
  nextTimeout :: nat
  requests :: "extractRequest list"
  logged :: "logLine list"

definition initialState :: state where
  "initialState =
     \<lparr>messageBuffers = [], silenceTimers = [], pendingTimeouts = [], nextTimeout = 0,
      requests = [], logged = []\<rparr>"

definition MAX_BUFFER_SIZE :: nat where
  "MAX_BUFFER_SIZE = 20"

text \<open>
  The collaborator is a parameter \<open>api\<close>: given the calls made so far and the
  request, it answers with \<open>decisionsFound\<close> or fails.
\<close>

type_synonym collaborator = "extractRequest list \<Rightarrow> extractRequest \<Rightarrow> outcome"

subsection \<open>Host timers\<close>

definition setTimeout :: "jsstring \<Rightarrow> state \<Rightarrow> nat \<times> state" where
  "setTimeout channelKey s =
     (nextTimeout s,
      s\<lparr>pendingTimeouts := pendingTimeouts s @ [(nextTimeout s, channelKey)],
        nextTimeout := Suc (nextTimeout s)\<rparr>)"

definition clearTimeout :: "nat \<Rightarrow> state \<Rightarrow> state" where
  "clearTimeout h s = s\<lparr>pendingTimeouts := AList.delete h (pendingTimeouts s)\<rparr>"

subsection \<open>\<open>getChannelKey\<close> and \<open>flushBuffer\<close>\<close>

text \<open>\<open>a || b\<close> on strings that may be missing: the empty string is falsy.\<close>

definition orElse :: "jsstring option \<Rightarrow> jsstring option \<Rightarrow> jsstring option" where
  "orElse a b = (case a of None \<Rightarrow> b | Some x \<Rightarrow> if x = [] then b else Some x)"

definition getChannelKey :: "event \<Rightarrow> jsstring" where
  "getChannelKey ev =
     (case session ev of
        None \<Rightarrow> js ''default''
      | Some se \<Rightarrow>
          (case orElse (orElse (channelId se) (sessionId se)) (Some (js ''default'')) of
             None \<Rightarrow> []
           | Some k \<Rightarrow> k))"

definition extractRequestFor :: "jsstring \<Rightarrow> BufferedMessage list \<Rightarrow> extractRequest" where
  "extractRequestFor channelKey msgs =
     \<lparr>messages = msgs, source = js ''openclaw'', channel = channelKey\<rparr>"

definition deleteBuffer :: "jsstring \<Rightarrow> state \<Rightarrow> state" where
  "deleteBuffer channelKey s =
     s\<lparr>messageBuffers := AList.delete channelKey (messageBuffers s)\<rparr>"

definition logOutcome :: "outcome \<Rightarrow> state \<Rightarrow> state" where
  "logOutcome r s =
     (case r of
        Found n \<Rightarrow> if n > 0 then s\<lparr>logged := logged s @ [Captured n]\<rparr> else s
      | Failed \<Rightarrow> s\<lparr>logged := logged s @ [AutoCaptureFailed]\<rparr>)"

definition flushBuffer :: "collaborator \<Rightarrow> jsstring \<Rightarrow> state \<Rightarrow> state" where
  "flushBuffer api channelKey s =
     (case map_of (messageBuffers s) channelKey of
        None \<Rightarrow> deleteBuffer channelKey s
      | Some msgs \<Rightarrow>
          if length msgs < 4 then deleteBuffer channelKey s
          else
            let req = extractRequestFor channelKey msgs;
                r = api (requests s) req;
                s1 = s\<lparr>requests := requests s @ [req]\<rparr>
            in deleteBuffer channelKey (logOutcome r s1))"

subsection \<open>The \<open>agent_end\<close> hook\<close>

text \<open>The text of a message: a string as it is, the \<open>text\<close> parts joined by a newline.\<close>

definition contentText :: "messageContent \<Rightarrow> jsstring" where
  "contentText c =
     (case c of
        Text t \<Rightarrow> t
      | Parts ps \<Rightarrow> join [0x0A] (map partText (filter (\<lambda>c. partType c = js ''text'') ps))
      | NoContent \<Rightarrow> [])"

fun collectMessages :: "jsstring \<Rightarrow> eventMessage list \<Rightarrow> BufferedMessage list" where
  "collectMessages now [] = []"
| "collectMessages now (msg # rest) =
     (if msgRole msg = js ''user'' \<or> msgRole msg = js ''assistant'' then
        (let c = contentText (msgContent msg) in
         if c \<noteq> [] \<and> length c > 5 then
           \<lparr>role = (if msgRole msg = js ''user'' then User else Assistant),
            content = c, timestamp = now\<rparr> # collectMessages now rest
         else collectMessages now rest)
      else collectMessages now rest)"

definition newMessagesOf :: "event \<Rightarrow> jsstring \<Rightarrow> BufferedMessage list" where
  "newMessagesOf ev now =
     (case eventMessages ev of None \<Rightarrow> [] | Some ms \<Rightarrow> collectMessages now ms)"

text \<open>
  \<open>appendAndClear\<close> is the hook from "Add to buffer" to "Clear existing silence
  timer": the state in which the overflow check reads the buffer.  \<open>clearTimeout\<close>
  cancels the timeout; the entry of \<open>silenceTimers\<close> stays.
\<close>

definition pushMessages :: "jsstring \<Rightarrow> BufferedMessage list \<Rightarrow> state \<Rightarrow> state" where
  "pushMessages channelKey new s =
     (case map_of (messageBuffers s) channelKey of
        None \<Rightarrow> s
      | Some buffer \<Rightarrow>
          s\<lparr>messageBuffers := AList.update channelKey (buffer @ new) (messageBuffers s)\<rparr>)"

definition appendAndClear :: "jsstring \<Rightarrow> BufferedMessage list \<Rightarrow> state \<Rightarrow> state" where
  "appendAndClear channelKey new s =
     (let s1 = (if map_of (messageBuffers s) channelKey = None
                then s\<lparr>messageBuffers := AList.update channelKey [] (messageBuffers s)\<rparr>
                else s);
          s2 = pushMessages channelKey new s1
      in case map_of (silenceTimers s2) channelKey of
           None \<Rightarrow> s2
         | Some h \<Rightarrow> clearTimeout h s2)"

text \<open>\<open>buffer.slice(-4)\<close>: the last four elements, or all of a shorter array.\<close>

definition sliceLast4 :: "'a list \<Rightarrow> 'a list" where
  "sliceLast4 buffer = drop (length buffer - 4) buffer"

definition tempKeyOf :: "jsstring \<Rightarrow> jsstring" where
  "tempKeyOf channelKey = channelKey @ js ''__flush''"

text \<open>
  \<open>overflowSwap\<close> is the overflow branch up to the call of \<open>flushBuffer\<close>: the state
  in which the extraction call is made.
\<close>

definition overflowSwap :: "jsstring \<Rightarrow> BufferedMessage list \<Rightarrow> state \<Rightarrow> state" where
  "overflowSwap channelKey buffer s =
     (let toExtract = buffer;
          s1 = s\<lparr>logged := logged s @ [BufferFull (length buffer)]\<rparr>;
          s2 = s1\<lparr>messageBuffers :=
                   AList.update channelKey (sliceLast4 buffer) (messageBuffers s1)\<rparr>
      in s2\<lparr>messageBuffers :=
              AList.update (tempKeyOf channelKey) toExtract (messageBuffers s2)\<rparr>)"

definition armSilenceTimer :: "jsstring \<Rightarrow> state \<Rightarrow> state" where
  "armSilenceTimer channelKey s =
     (case setTimeout channelKey s of
        (h, s1) \<Rightarrow> s1\<lparr>silenceTimers := AList.update channelKey h (silenceTimers s1)\<rparr>)"

definition agent_end :: "collaborator \<Rightarrow> event \<Rightarrow> jsstring \<Rightarrow> state \<Rightarrow> state" where
  "agent_end api ev now s =
     (let channelKey = getChannelKey ev;
          newMessages = newMessagesOf ev now
      in if newMessages = [] then s
         else
           let s1 = appendAndClear channelKey newMessages s in
           case map_of (messageBuffers s1) channelKey of
             None \<Rightarrow> s1
           | Some buffer \<Rightarrow>
               if length buffer \<ge> MAX_BUFFER_SIZE
               then flushBuffer api (tempKeyOf channelKey) (overflowSwap channelKey buffer s1)
               else armSilenceTimer channelKey s1)"

subsection \<open>The silence timer firing\<close>

text \<open>
  A timeout that fires leaves the host's table and runs its callback, which
  deletes the key's entry of \<open>silenceTimers\<close> and then flushes.  A handle that is not
  pending does not fire.
\<close>

definition forgetTimer :: "jsstring \<Rightarrow> state \<Rightarrow> state" where
  "forgetTimer channelKey s = s\<lparr>silenceTimers := AList.delete channelKey (silenceTimers s)\<rparr>"

definition timerCallback :: "collaborator \<Rightarrow> jsstring \<Rightarrow> state \<Rightarrow> state" where
  "timerCallback api channelKey s = flushBuffer api channelKey (forgetTimer channelKey s)"

definition timeoutFires :: "collaborator \<Rightarrow> nat \<Rightarrow> state \<Rightarrow> state" where
  "timeoutFires api h s =
     (case map_of (pendingTimeouts s) h of
        None \<Rightarrow> s
      | Some channelKey \<Rightarrow> timerCallback api channelKey (clearTimeout h s))"

subsection \<open>The service's \<open>stop\<close> handler\<close>

text \<open>
  \<open>for (const [channelKey] of messageBuffers)\<close> walks the live \<open>Map\<close> in insertion
  order: an entry deleted before the walk reaches it is not visited.  The loop
  below walks the keys present when it starts and skips a key that is gone by
  the time it is reached.
\<close>

definition stopVisit :: "collaborator \<Rightarrow> jsstring \<Rightarrow> state \<Rightarrow> state" where
  "stopVisit api channelKey s =
     flushBuffer api channelKey
       (case map_of (silenceTimers s) channelKey of
          None \<Rightarrow> s
        | Some h \<Rightarrow> forgetTimer channelKey (clearTimeout h s))"

fun stopLoop :: "collaborator \<Rightarrow> jsstring list \<Rightarrow> state \<Rightarrow> state" where
  "stopLoop api [] s = s"
| "stopLoop api (channelKey # rest) s =
     stopLoop api rest
       (if map_of (messageBuffers s) channelKey = None then s else stopVisit api channelKey s)"

definition stop :: "collaborator \<Rightarrow> state \<Rightarrow> state" where
  "stop api s =
     (let s1 = stopLoop api (map fst (messageBuffers s)) s
      in s1\<lparr>logged := logged s1 @ [ServiceStopped]\<rparr>)"

subsection \<open>Runs of the plugin\<close>

datatype hostEvent = AgentEnd event jsstring | TimeoutFires nat | ServiceStop

fun handle :: "collaborator \<Rightarrow> state \<Rightarrow> hostEvent \<Rightarrow> state" where
  "handle api s (AgentEnd ev now) = agent_end api ev now s"
| "handle api s (TimeoutFires h) = timeoutFires api h s"
| "handle api s ServiceStop = stop api s"

text \<open>
  A run handles each event to its end before the next one starts.  In the code a
  handler is suspended while its extraction call is in flight, and another handler
  may run in between; such interleavings are not runs.  What the handlers do to the
  timers happens before they suspend.
\<close>

definition run :: "collaborator \<Rightarrow> hostEvent list \<Rightarrow> state" where
  "run api evs = foldl (handle api) initialState evs"

text \<open>The silence timers of a channel that are armed and have not fired.\<close>

definition liveTimers :: "state \<Rightarrow> jsstring \<Rightarrow> nat list" where
  "liveTimers s channelKey = map fst (filter (\<lambda>p. snd p = channelKey) (pendingTimeouts s))"

definition bufferOf :: "state \<Rightarrow> jsstring \<Rightarrow> BufferedMessage list option" where
  "bufferOf s channelKey = map_of (messageBuffers s) channelKey"

definition bufferOrEmpty :: "state \<Rightarrow> jsstring \<Rightarrow> BufferedMessage list" where
  "bufferOrEmpty s channelKey =
     (case map_of (messageBuffers s) channelKey of None \<Rightarrow> [] | Some b \<Rightarrow> b)"

text \<open>
  The bookkeeping of the timers is consistent when the pending timeouts have
  distinct handles, all below the next fresh one, and each is the handle that
  \<open>silenceTimers\<close> records for its channel key.
\<close>

definition timersConsistent :: "state \<Rightarrow> bool" where
  "timersConsistent s =
     (distinct (map fst (pendingTimeouts s))
      \<and> list_all (\<lambda>p. fst p < nextTimeout s \<and> map_of (silenceTimers s) (snd p) = Some (fst p))
           (pendingTimeouts s))"

subsection \<open>Sample inputs\<close>

text \<open>
  \<open>chatEvent c i n\<close> is an event on channel \<open>c\<close> that carries \<open>n\<close> user messages,
  numbered from \<open>i\<close>: "message A", "message B", and so on.
\<close>

definition numberedMessage :: "nat \<Rightarrow> eventMessage" where
  "numberedMessage i =
     \<lparr>msgRole = js ''user'', msgContent = Text (js ''message '' @ [of_nat (65 + i)])\<rparr>"

definition chatEvent :: "string \<Rightarrow> nat \<Rightarrow> nat \<Rightarrow> event" where
  "chatEvent c i n =
     \<lparr>session = Some \<lparr>channelId = Some (js c), sessionId = None\<rparr>,
      eventMessages = Some (map numberedMessage [i..<i + n])\<rparr>"

definition buffered :: "nat \<Rightarrow> BufferedMessage" where
  "buffered i =
     \<lparr>role = User, content = js ''message '' @ [of_nat (65 + i)], timestamp = js ''t0''\<rparr>"

definition alwaysFails :: collaborator where
  "alwaysFails calls req = Failed"

definition alwaysFinds :: collaborator where
  "alwaysFinds calls req = Found 1"

definition shortQuestion :: jsstring where
  "shortQuestion = js ''What did we decide?''"

definition longQuestion :: jsstring where
  "longQuestion = js ''What did we decide about the AWS migration budget last quarter?''"

section \<open>Properties of the recall-path filter\<close>

lemma matchesPattern_list_ex: "matchesPattern ps t = list_ex (\<lambda>p. test p t) ps"
  by (induction ps) simp_all

text \<open>
  Claim C2, as the spec states it: a text is skipped exactly when it is empty or
  casual, so a text under 30 characters with a question mark or a memory keyword
  and no casual opener is considered.  The hook has a length gate of its own in
  front of \<open>looksLikeCasualChat\<close>: "What did we decide?" (19 characters) is not
  empty, has a question mark and the keywords "decide" and "what did", matches no
  casual pattern and is not casual, and is skipped all the same.
\<close>

theorem short_question_is_skipped:
  "\<not> shouldConsultMemory toLowerCaseASCII shortQuestion
   \<and> shortQuestion \<noteq> []
   \<and> length shortQuestion = 19
   \<and> \<not> looksLikeCasualChat toLowerCaseASCII shortQuestion
   \<and> \<not> matchesPattern casualPatterns (trim (toLowerCaseASCII shortQuestion))
   \<and> includesStr (trim (toLowerCaseASCII shortQuestion)) (js ''?'')
   \<and> hasMemoryKeywords (trim (toLowerCaseASCII shortQuestion))"
  by code_simp

text \<open>
  Claim C2, amended: a text is skipped exactly when it is empty, or shorter than
  30 characters, or casual; and it is casual exactly when its lowercased, trimmed
  form matches one of the casual patterns (whatever its length), or is under 40
  characters long with no question mark and no memory keyword.
\<close>

theorem shouldConsultMemory_skip_iff:
  "((\<not> shouldConsultMemory lc t) \<longleftrightarrow> (t = [] \<or> length t < 30 \<or> looksLikeCasualChat lc t))
   \<and> (looksLikeCasualChat lc t \<longleftrightarrow>
        (list_ex (\<lambda>p. test p (trim (lc t))) casualPatterns
         \<or> (length (trim (lc t)) < 40 \<and> \<not> includesStr (trim (lc t)) (js ''?'')
             \<and> \<not> hasMemoryKeywords (trim (lc t)))))"
  by (simp add: shouldConsultMemory_def looksLikeCasualChat_def Let_def matchesPattern_list_ex)

theorem shouldConsultMemory_skip_iff_witness:
  "shouldConsultMemory toLowerCaseASCII longQuestion
   \<and> \<not> list_ex (\<lambda>p. test p (trim (toLowerCaseASCII longQuestion))) casualPatterns
   \<and> 40 \<le> length (trim (toLowerCaseASCII longQuestion))"
proof -
  have a: "\<not> looksLikeCasualChat toLowerCaseASCII longQuestion"
    by code_simp
  have b: "\<not> (longQuestion = [] \<or> length longQuestion < 30)"
    by code_simp
  have c: "40 \<le> length (trim (toLowerCaseASCII longQuestion))"
    by code_simp
  from a b c shouldConsultMemory_skip_iff [of toLowerCaseASCII longQuestion]
  show ?thesis by blast
qed

section \<open>Properties of \<open>flushBuffer\<close>\<close>

lemma deleteBuffer_fields [simp]:
  "messageBuffers (deleteBuffer k s) = AList.delete k (messageBuffers s)"
  "silenceTimers (deleteBuffer k s) = silenceTimers s"
  "pendingTimeouts (deleteBuffer k s) = pendingTimeouts s"
  "nextTimeout (deleteBuffer k s) = nextTimeout s"
  "requests (deleteBuffer k s) = requests s"
  "logged (deleteBuffer k s) = logged s"
  by (simp_all add: deleteBuffer_def)

lemma logOutcome_fields [simp]:
  "messageBuffers (logOutcome r s) = messageBuffers s"
  "silenceTimers (logOutcome r s) = silenceTimers s"
  "pendingTimeouts (logOutcome r s) = pendingTimeouts s"
  "nextTimeout (logOutcome r s) = nextTimeout s"
  "requests (logOutcome r s) = requests s"
  by (simp_all add: logOutcome_def split: outcome.splits)

lemma flushBuffer_buffers [simp]:
  "messageBuffers (flushBuffer api k s) = AList.delete k (messageBuffers s)"
  by (simp add: flushBuffer_def Let_def split: option.splits)

lemma flushBuffer_timers [simp]:
  "silenceTimers (flushBuffer api k s) = silenceTimers s"
  "pendingTimeouts (flushBuffer api k s) = pendingTimeouts s"
  "nextTimeout (flushBuffer api k s) = nextTimeout s"
  by (simp_all add: flushBuffer_def Let_def split: option.splits)

lemma flushBuffer_requests:
  "requests (flushBuffer api k s) =
     requests s @ (case map_of (messageBuffers s) k of
                     None \<Rightarrow> []
                   | Some msgs \<Rightarrow> if length msgs < 4 then [] else [extractRequestFor k msgs])"
  by (simp add: flushBuffer_def Let_def split: option.splits)

lemma flushBuffer_logged:
  "logged (flushBuffer api k s) =
     logged s @ (case map_of (messageBuffers s) k of
                   None \<Rightarrow> []
                 | Some msgs \<Rightarrow>
                     if length msgs < 4 then []
                     else (case api (requests s) (extractRequestFor k msgs) of
                             Found n \<Rightarrow> if n > 0 then [Captured n] else []
                           | Failed \<Rightarrow> [AutoCaptureFailed]))"
  by (simp add: flushBuffer_def Let_def logOutcome_def split: option.splits outcome.splits)

text \<open>
  Claim C5: when the buffer of a key holds at least 4 messages, \<open>flushBuffer\<close>
  makes exactly one call to the collaborator, with that buffer, and removes the
  key's buffer, whatever the collaborator answers: the answer only decides what is
  logged.  Nothing is kept for a retry: flushing the key again makes no call.
\<close>

theorem flushBuffer_hands_off_once:
  assumes "bufferOf s k = Some msgs" and "4 \<le> length msgs"
  shows "requests (flushBuffer api k s) = requests s @ [extractRequestFor k msgs]
    \<and> bufferOf (flushBuffer api k s) k = None
    \<and> messageBuffers (flushBuffer api k s) = AList.delete k (messageBuffers s)
    \<and> requests (flushBuffer api k (flushBuffer api k s)) = requests (flushBuffer api k s)
    \<and> logged (flushBuffer api k s) =
        logged s @ (case api (requests s) (extractRequestFor k msgs) of
                      Found n \<Rightarrow> if n > 0 then [Captured n] else []
                    | Failed \<Rightarrow> [AutoCaptureFailed])"
  using assms
  by (simp add: bufferOf_def flushBuffer_requests flushBuffer_logged delete_conv')

theorem flushBuffer_hands_off_once_witness:
  "requests (flushBuffer alwaysFails (js ''c1'')
       (run alwaysFails [AgentEnd (chatEvent ''c1'' 0 4) (js ''t0'')])) =
     [extractRequestFor (js ''c1'') (map buffered [0..<4])]
   \<and> bufferOf (flushBuffer alwaysFails (js ''c1'')
       (run alwaysFails [AgentEnd (chatEvent ''c1'' 0 4) (js ''t0'')])) (js ''c1'') = None
   \<and> logged (flushBuffer alwaysFails (js ''c1'')
       (run alwaysFails [AgentEnd (chatEvent ''c1'' 0 4) (js ''t0'')])) = [AutoCaptureFailed]"
proof -
  have a: "bufferOf (run alwaysFails [AgentEnd (chatEvent ''c1'' 0 4) (js ''t0'')]) (js ''c1'') =
      Some (map buffered [0..<4])"
    by code_simp
  have b: "4 \<le> length (map buffered [0..<4])"
    by simp
  have c: "requests (run alwaysFails [AgentEnd (chatEvent ''c1'' 0 4) (js ''t0'')]) = []"
    by code_simp
  have d: "logged (run alwaysFails [AgentEnd (chatEvent ''c1'' 0 4) (js ''t0'')]) = []"
    by code_simp
  from flushBuffer_hands_off_once [OF a b, of alwaysFails] c d
  show ?thesis by (simp add: alwaysFails_def)
qed

text \<open>
  Claim C6: when the buffer of a key holds fewer than 4 messages, or the key has
  no buffer, \<open>flushBuffer\<close> removes the key from the buffer store and makes no call
  to the collaborator.
\<close>

theorem flushBuffer_below_floor:
  assumes "(case bufferOf s k of None \<Rightarrow> True | Some msgs \<Rightarrow> length msgs < 4)"
  shows "requests (flushBuffer api k s) = requests s
    \<and> bufferOf (flushBuffer api k s) k = None
    \<and> messageBuffers (flushBuffer api k s) = AList.delete k (messageBuffers s)
    \<and> logged (flushBuffer api k s) = logged s"
  using assms
  by (auto simp add: bufferOf_def flushBuffer_requests flushBuffer_logged delete_conv'
      split: option.splits)

theorem flushBuffer_below_floor_witness:
  "requests (flushBuffer alwaysFinds (js ''c1'')
       (run alwaysFinds [AgentEnd (chatEvent ''c1'' 0 3) (js ''t0'')])) = []
   \<and> bufferOf (flushBuffer alwaysFinds (js ''c1'')
       (run alwaysFinds [AgentEnd (chatEvent ''c1'' 0 3) (js ''t0'')])) (js ''c1'') = None
   \<and> requests (flushBuffer alwaysFinds (js ''c2'') initialState) = []
   \<and> bufferOf (flushBuffer alwaysFinds (js ''c2'') initialState) (js ''c2'') = None"
proof -
  have a: "bufferOf (run alwaysFinds [AgentEnd (chatEvent ''c1'' 0 3) (js ''t0'')]) (js ''c1'') =
      Some (map buffered [0..<3])"
    by code_simp
  have b: "requests (run alwaysFinds [AgentEnd (chatEvent ''c1'' 0 3) (js ''t0'')]) = []"
    by code_simp
  have c: "bufferOf initialState (js ''c2'') = None"
    by code_simp
  have d: "requests initialState = []"
    by code_simp
  from flushBuffer_below_floor
         [of "run alwaysFinds [AgentEnd (chatEvent ''c1'' 0 3) (js ''t0'')]" "js ''c1''" alwaysFinds]
       flushBuffer_below_floor [of initialState "js ''c2''" alwaysFinds] a b c d
  show ?thesis by simp
qed

section \<open>The \<open>agent_end\<close> hook, case by case\<close>

lemma clearTimeout_fields [simp]:
  "messageBuffers (clearTimeout h s) = messageBuffers s"
  "silenceTimers (clearTimeout h s) = silenceTimers s"
  "pendingTimeouts (clearTimeout h s) = AList.delete h (pendingTimeouts s)"
  "nextTimeout (clearTimeout h s) = nextTimeout s"
  "requests (clearTimeout h s) = requests s"
  "logged (clearTimeout h s) = logged s"
  by (simp_all add: clearTimeout_def)

lemma appendAndClear_buffers:
  "messageBuffers (appendAndClear k new s) =
     AList.update k (bufferOrEmpty s k @ new) (messageBuffers s)"
  by (auto simp add: appendAndClear_def pushMessages_def bufferOrEmpty_def Let_def update_conv'
      split: option.splits)

lemma appendAndClear_pending:
  "pendingTimeouts (appendAndClear k new s) =
     (case map_of (silenceTimers s) k of
        None \<Rightarrow> pendingTimeouts s
      | Some h \<Rightarrow> AList.delete h (pendingTimeouts s))"
  by (auto simp add: appendAndClear_def pushMessages_def Let_def split: option.splits)

lemma appendAndClear_fields [simp]:
  "silenceTimers (appendAndClear k new s) = silenceTimers s"
  "nextTimeout (appendAndClear k new s) = nextTimeout s"
  "requests (appendAndClear k new s) = requests s"
  "logged (appendAndClear k new s) = logged s"
  by (auto simp add: appendAndClear_def pushMessages_def Let_def split: option.splits)

lemma tempKeyOf_neq [simp]: "tempKeyOf k \<noteq> k" "k \<noteq> tempKeyOf k"
  by (simp_all add: tempKeyOf_def js_def)

lemma overflowSwap_fields [simp]:
  "messageBuffers (overflowSwap k buffer s) =
     AList.update (tempKeyOf k) buffer (AList.update k (sliceLast4 buffer) (messageBuffers s))"
  "silenceTimers (overflowSwap k buffer s) = silenceTimers s"
  "pendingTimeouts (overflowSwap k buffer s) = pendingTimeouts s"
  "nextTimeout (overflowSwap k buffer s) = nextTimeout s"
  "requests (overflowSwap k buffer s) = requests s"
  "logged (overflowSwap k buffer s) = logged s @ [BufferFull (length buffer)]"
  by (simp_all add: overflowSwap_def Let_def)

lemma armSilenceTimer_fields [simp]:
  "messageBuffers (armSilenceTimer k s) = messageBuffers s"
  "silenceTimers (armSilenceTimer k s) = AList.update k (nextTimeout s) (silenceTimers s)"
  "pendingTimeouts (armSilenceTimer k s) = pendingTimeouts s @ [(nextTimeout s, k)]"
  "nextTimeout (armSilenceTimer k s) = Suc (nextTimeout s)"
  "requests (armSilenceTimer k s) = requests s"
  "logged (armSilenceTimer k s) = logged s"
  by (simp_all add: armSilenceTimer_def setTimeout_def)

lemma agent_end_nothing:
  "newMessagesOf ev now = [] \<Longrightarrow> agent_end api ev now s = s"
  by (simp add: agent_end_def)

lemma agent_end_overflow:
  assumes "newMessagesOf ev now \<noteq> []"
    and "MAX_BUFFER_SIZE \<le> length (bufferOrEmpty s (getChannelKey ev) @ newMessagesOf ev now)"
  shows "agent_end api ev now s =
     flushBuffer api (tempKeyOf (getChannelKey ev))
       (overflowSwap (getChannelKey ev) (bufferOrEmpty s (getChannelKey ev) @ newMessagesOf ev now)
          (appendAndClear (getChannelKey ev) (newMessagesOf ev now) s))"
  using assms by (simp add: agent_end_def Let_def appendAndClear_buffers update_conv')

lemma agent_end_arm:
  assumes "newMessagesOf ev now \<noteq> []"
    and "length (bufferOrEmpty s (getChannelKey ev) @ newMessagesOf ev now) < MAX_BUFFER_SIZE"
  shows "agent_end api ev now s =
     armSilenceTimer (getChannelKey ev) (appendAndClear (getChannelKey ev) (newMessagesOf ev now) s)"
  using assms by (simp add: agent_end_def Let_def appendAndClear_buffers update_conv')

section \<open>The timer bookkeeping stays consistent\<close>

lemma timersConsistent_same:
  "pendingTimeouts t = pendingTimeouts s \<Longrightarrow> nextTimeout t = nextTimeout s \<Longrightarrow>
   silenceTimers t = silenceTimers s \<Longrightarrow> timersConsistent t = timersConsistent s"
  by (simp add: timersConsistent_def)

lemma distinct_all_equal:
  assumes "distinct xs" and "\<forall>x\<in>set xs. x = a"
  shows "length xs \<le> Suc 0"
proof -
  have "set xs \<subseteq> {a}" using assms(2) by auto
  then have "card (set xs) \<le> card {a}" by (intro card_mono) auto
  with assms(1) show ?thesis by (simp add: distinct_card)
qed

lemma liveTimers_unrecorded:
  assumes "timersConsistent s" and "map_of (silenceTimers s) k = None"
  shows "liveTimers s k = []"
  using assms by (auto simp add: timersConsistent_def liveTimers_def list_all_iff filter_empty_conv)

lemma liveTimers_recorded:
  assumes "timersConsistent s" and "map_of (silenceTimers s) k = Some h"
  shows "set (liveTimers s k) \<subseteq> {h}"
  using assms by (auto simp add: timersConsistent_def liveTimers_def list_all_iff)

lemma liveTimers_at_most_one:
  assumes "timersConsistent s"
  shows "length (liveTimers s k) \<le> Suc 0"
proof (cases "map_of (silenceTimers s) k")
  case None
  with assms show ?thesis by (simp add: liveTimers_unrecorded)
next
  case (Some h)
  have d: "distinct (liveTimers s k)"
    using assms by (simp add: timersConsistent_def liveTimers_def distinct_map_filter)
  from liveTimers_recorded [OF assms Some] have "\<forall>x\<in>set (liveTimers s k). x = h" by auto
  with d show ?thesis by (rule distinct_all_equal)
qed

lemma clearTimeout_consistent:
  "timersConsistent s \<Longrightarrow> timersConsistent (clearTimeout h s)"
  by (auto simp add: timersConsistent_def list_all_iff AList.delete_eq distinct_map_filter)

lemma liveTimers_clearTimeout:
  assumes "timersConsistent s" and "map_of (silenceTimers s) k = Some h"
  shows "liveTimers (clearTimeout h s) k = []"
  using assms
  by (auto simp add: timersConsistent_def liveTimers_def list_all_iff filter_empty_conv
      AList.delete_eq)

lemma liveTimers_pending_key:
  assumes "timersConsistent s" and "map_of (pendingTimeouts s) h = Some k"
  shows "map_of (silenceTimers s) k = Some h"
proof -
  from assms(2) have "(h, k) \<in> set (pendingTimeouts s)" by (rule map_of_SomeD)
  with assms(1) show ?thesis by (fastforce simp add: timersConsistent_def list_all_iff)
qed

lemma forgetTimer_fields [simp]:
  "messageBuffers (forgetTimer k s) = messageBuffers s"
  "silenceTimers (forgetTimer k s) = AList.delete k (silenceTimers s)"
  "pendingTimeouts (forgetTimer k s) = pendingTimeouts s"
  "nextTimeout (forgetTimer k s) = nextTimeout s"
  "requests (forgetTimer k s) = requests s"
  "logged (forgetTimer k s) = logged s"
  by (simp_all add: forgetTimer_def)

lemma forgetTimer_consistent:
  assumes "timersConsistent s" and "liveTimers s k = []"
  shows "timersConsistent (forgetTimer k s)"
  using assms
  by (auto simp add: timersConsistent_def liveTimers_def list_all_iff filter_empty_conv
      delete_conv')

lemma armSilenceTimer_consistent:
  assumes "timersConsistent s" and "liveTimers s k = []"
  shows "timersConsistent (armSilenceTimer k s)"
  using assms
  by (auto simp add: timersConsistent_def liveTimers_def list_all_iff filter_empty_conv
      update_conv')

lemma liveTimers_armSilenceTimer:
  assumes "liveTimers s k = []"
  shows "liveTimers (armSilenceTimer k s) k = [nextTimeout s]"
  using assms by (simp add: liveTimers_def)

lemma appendAndClear_consistent:
  assumes "timersConsistent s"
  shows "timersConsistent (appendAndClear k new s) \<and> liveTimers (appendAndClear k new s) k = []"
proof (cases "map_of (silenceTimers s) k")
  case None
  have "timersConsistent (appendAndClear k new s) = timersConsistent s"
    by (rule timersConsistent_same) (simp_all add: appendAndClear_pending None)
  moreover have "liveTimers (appendAndClear k new s) k = liveTimers s k"
    by (simp add: liveTimers_def appendAndClear_pending None)
  ultimately show ?thesis using assms None by (simp add: liveTimers_unrecorded)
next
  case (Some h)
  have "timersConsistent (appendAndClear k new s) = timersConsistent (clearTimeout h s)"
    by (rule timersConsistent_same) (simp_all add: appendAndClear_pending Some)
  moreover have "liveTimers (appendAndClear k new s) k = liveTimers (clearTimeout h s) k"
    by (simp add: liveTimers_def appendAndClear_pending Some)
  ultimately show ?thesis
    using assms Some by (simp add: clearTimeout_consistent liveTimers_clearTimeout)
qed

lemma liveTimers_same:
  "pendingTimeouts t = pendingTimeouts s \<Longrightarrow> liveTimers t k = liveTimers s k"
  by (simp add: liveTimers_def)

lemma agent_end_cases:
  "newMessagesOf ev now = [] \<and> agent_end api ev now s = s
   \<or> newMessagesOf ev now \<noteq> []
      \<and> MAX_BUFFER_SIZE \<le> length (bufferOrEmpty s (getChannelKey ev) @ newMessagesOf ev now)
      \<and> agent_end api ev now s =
          flushBuffer api (tempKeyOf (getChannelKey ev))
            (overflowSwap (getChannelKey ev)
               (bufferOrEmpty s (getChannelKey ev) @ newMessagesOf ev now)
               (appendAndClear (getChannelKey ev) (newMessagesOf ev now) s))
   \<or> newMessagesOf ev now \<noteq> []
      \<and> length (bufferOrEmpty s (getChannelKey ev) @ newMessagesOf ev now) < MAX_BUFFER_SIZE
      \<and> agent_end api ev now s =
          armSilenceTimer (getChannelKey ev)
            (appendAndClear (getChannelKey ev) (newMessagesOf ev now) s)"
  using agent_end_nothing [of ev now api s] agent_end_overflow [of ev now s api]
    agent_end_arm [of ev now s api]
  by (cases "newMessagesOf ev now = []";
      cases "MAX_BUFFER_SIZE \<le> length (bufferOrEmpty s (getChannelKey ev) @ newMessagesOf ev now)")
     (simp_all add: not_le)

lemma agent_end_consistent:
  assumes "timersConsistent s"
  shows "timersConsistent (agent_end api ev now s)"
proof -
  let ?k = "getChannelKey ev" and ?new = "newMessagesOf ev now"
  let ?a = "appendAndClear ?k ?new s"
  note a = appendAndClear_consistent [OF assms, of ?k ?new]
  from agent_end_cases [of ev now api s] show ?thesis
  proof (elim disjE conjE)
    assume "agent_end api ev now s = s"
    with assms show ?thesis by simp
  next
    assume e: "agent_end api ev now s =
      flushBuffer api (tempKeyOf ?k) (overflowSwap ?k (bufferOrEmpty s ?k @ ?new) ?a)"
    have "timersConsistent (agent_end api ev now s) = timersConsistent ?a"
      unfolding e by (rule timersConsistent_same) simp_all
    with a show ?thesis by simp
  next
    assume e: "agent_end api ev now s = armSilenceTimer ?k ?a"
    from a show ?thesis unfolding e by (simp add: armSilenceTimer_consistent)
  qed
qed

lemma timeoutFires_consistent:
  assumes "timersConsistent s"
  shows "timersConsistent (timeoutFires api h s)"
proof (cases "map_of (pendingTimeouts s) h")
  case None
  with assms show ?thesis by (simp add: timeoutFires_def)
next
  case (Some k)
  from liveTimers_pending_key [OF assms Some] have r: "map_of (silenceTimers s) k = Some h" .
  have c: "timersConsistent (forgetTimer k (clearTimeout h s))"
    using assms r
    by (intro forgetTimer_consistent clearTimeout_consistent liveTimers_clearTimeout)
  have "timersConsistent (timeoutFires api h s) = timersConsistent (forgetTimer k (clearTimeout h s))"
    by (rule timersConsistent_same) (simp_all add: timeoutFires_def Some timerCallback_def)
  with c show ?thesis by simp
qed

lemma stopVisit_consistent:
  assumes "timersConsistent s"
  shows "timersConsistent (stopVisit api k s) \<and> liveTimers (stopVisit api k s) k = []"
proof (cases "map_of (silenceTimers s) k")
  case None
  have "timersConsistent (stopVisit api k s) = timersConsistent s"
    by (rule timersConsistent_same) (simp_all add: stopVisit_def None)
  moreover have "liveTimers (stopVisit api k s) k = liveTimers s k"
    by (rule liveTimers_same) (simp add: stopVisit_def None)
  ultimately show ?thesis using assms None by (simp add: liveTimers_unrecorded)
next
  case (Some h)
  let ?t = "forgetTimer k (clearTimeout h s)"
  have l: "liveTimers (clearTimeout h s) k = []"
    using assms Some by (rule liveTimers_clearTimeout)
  have c: "timersConsistent ?t"
    using assms l by (intro forgetTimer_consistent clearTimeout_consistent)
  have "timersConsistent (stopVisit api k s) = timersConsistent ?t"
    by (rule timersConsistent_same) (simp_all add: stopVisit_def Some)
  moreover have "liveTimers (stopVisit api k s) k = liveTimers (clearTimeout h s) k"
    by (rule liveTimers_same) (simp add: stopVisit_def Some)
  ultimately show ?thesis using c l by simp
qed

lemma stopLoop_consistent:
  "timersConsistent s \<Longrightarrow> timersConsistent (stopLoop api ks s)"
  by (induction ks arbitrary: s) (simp_all add: stopVisit_consistent)

lemma stop_consistent:
  assumes "timersConsistent s"
  shows "timersConsistent (stop api s)"
proof -
  have "timersConsistent (stop api s) =
      timersConsistent (stopLoop api (map fst (messageBuffers s)) s)"
    by (rule timersConsistent_same) (simp_all add: stop_def Let_def)
  with assms show ?thesis by (simp add: stopLoop_consistent)
qed

lemma handle_consistent:
  "timersConsistent s \<Longrightarrow> timersConsistent (handle api s e)"
  by (cases e) (simp_all add: agent_end_consistent timeoutFires_consistent stop_consistent)

lemma foldl_handle_consistent:
  "timersConsistent s \<Longrightarrow> timersConsistent (foldl (handle api) s evs)"
  by (induction evs arbitrary: s) (simp_all add: handle_consistent)

lemma run_consistent: "timersConsistent (run api evs)"
  unfolding run_def
  by (rule foldl_handle_consistent) (simp add: timersConsistent_def initialState_def)

section \<open>The overflow branch\<close>

lemma overflow_requests:
  assumes "MAX_BUFFER_SIZE \<le> length buffer"
  shows "requests (flushBuffer api (tempKeyOf k) (overflowSwap k buffer s)) =
     requests s @ [extractRequestFor (tempKeyOf k) buffer]"
  using assms by (simp add: flushBuffer_requests update_conv' MAX_BUFFER_SIZE_def)

lemma overflow_live_buffer:
  "bufferOf (overflowSwap k buffer s) k = Some (sliceLast4 buffer)"
  "bufferOf (flushBuffer api (tempKeyOf k) (overflowSwap k buffer s)) k = Some (sliceLast4 buffer)"
  by (simp_all add: bufferOf_def update_conv' delete_conv')

lemma sliceLast4_suffix:
  "take (length buffer - 4) buffer @ sliceLast4 buffer = buffer"
  by (simp add: sliceLast4_def)

lemma length_sliceLast4: "4 \<le> length buffer \<Longrightarrow> length (sliceLast4 buffer) = 4"
  by (simp add: sliceLast4_def)

lemma appendAndClear_bufferOf:
  "bufferOf (appendAndClear k new s) k = Some (bufferOrEmpty s k @ new)"
  by (simp add: bufferOf_def appendAndClear_buffers update_conv')

text \<open>
  Claim C1, as the spec states it: when an append brings the buffer to 20
  messages, the batch handed to the collaborator holds the first 16 messages and
  leaves out the 4 kept as overlap.  One event with 20 messages on a fresh channel
  hands over all 20: the 4 messages kept in the live buffer are in the batch too.
\<close>

theorem overflow_batch_holds_all_twenty:
  "map messages (requests (run alwaysFinds [AgentEnd (chatEvent ''c1'' 0 20) (js ''t0'')])) =
     [map buffered [0..<20]]
   \<and> map (\<lambda>r. length (messages r))
        (requests (run alwaysFinds [AgentEnd (chatEvent ''c1'' 0 20) (js ''t0'')])) = [20]
   \<and> map messages (requests (run alwaysFinds [AgentEnd (chatEvent ''c1'' 0 20) (js ''t0'')])) \<noteq>
     [map buffered [0..<16]]
   \<and> bufferOf (run alwaysFinds [AgentEnd (chatEvent ''c1'' 0 20) (js ''t0'')]) (js ''c1'') =
     Some (map buffered [16..<20])"
  by code_simp

text \<open>
  Claim C1, amended: when an append brings the buffer of a channel to
  \<open>MAX_BUFFER_SIZE\<close> messages or more, the hook makes the extraction call itself,
  arming no timer, and the batch is the whole buffer: what was buffered before
  followed by the new messages, the last 4 included; those 4 are also what the
  live buffer keeps.
\<close>

theorem overflow_batch_is_whole_buffer:
  assumes "newMessagesOf ev now \<noteq> []"
    and "MAX_BUFFER_SIZE \<le> length (bufferOrEmpty s (getChannelKey ev) @ newMessagesOf ev now)"
  shows "map messages (requests (agent_end api ev now s)) =
       map messages (requests s) @ [bufferOrEmpty s (getChannelKey ev) @ newMessagesOf ev now]
     \<and> pendingTimeouts (agent_end api ev now s) =
         pendingTimeouts (appendAndClear (getChannelKey ev) (newMessagesOf ev now) s)
     \<and> bufferOf (agent_end api ev now s) (getChannelKey ev) =
         Some (drop (length (bufferOrEmpty s (getChannelKey ev) @ newMessagesOf ev now) - 4)
                 (bufferOrEmpty s (getChannelKey ev) @ newMessagesOf ev now))"
  using assms
  by (simp add: agent_end_overflow overflow_requests overflow_live_buffer extractRequestFor_def
      sliceLast4_def del: append_assoc)

theorem overflow_batch_is_whole_buffer_witness:
  "map messages (requests (agent_end alwaysFinds (chatEvent ''c1'' 0 20) (js ''t0'') initialState)) =
     [map buffered [0..<20]]
   \<and> bufferOf (agent_end alwaysFinds (chatEvent ''c1'' 0 20) (js ''t0'') initialState) (js ''c1'') =
     Some (map buffered [16..<20])"
proof -
  have a: "newMessagesOf (chatEvent ''c1'' 0 20) (js ''t0'') \<noteq> []"
    by code_simp
  have b: "MAX_BUFFER_SIZE \<le> length (bufferOrEmpty initialState (getChannelKey (chatEvent ''c1'' 0 20))
      @ newMessagesOf (chatEvent ''c1'' 0 20) (js ''t0''))"
    by code_simp
  have c: "newMessagesOf (chatEvent ''c1'' 0 20) (js ''t0'') = map buffered [0..<20]"
    by code_simp
  have d: "getChannelKey (chatEvent ''c1'' 0 20) = js ''c1''"
    by code_simp
  have e: "drop (length (map buffered [0..<20]) - 4) (map buffered [0..<20]) = map buffered [16..<20]"
    by code_simp
  have f: "requests initialState = []" "bufferOrEmpty initialState (js ''c1'') = []"
    by code_simp+
  from overflow_batch_is_whole_buffer [OF a b, of alwaysFinds]
  show ?thesis unfolding c d f list.map append_Nil e by blast
qed

text \<open>
  Claim C3: every batch request carries the channel key of the event as its
  \<open>channel\<close>, for every flush trigger.  The timer and the shutdown paths do; the
  overflow path calls \<open>flushBuffer\<close> with the temporary key, so its request names
  the channel "c1__flush" for an event of channel "c1".
\<close>

theorem overflow_request_channel_is_temp_key:
  "getChannelKey (chatEvent ''c1'' 0 20) = js ''c1''
   \<and> map channel (requests (run alwaysFinds [AgentEnd (chatEvent ''c1'' 0 20) (js ''t0'')])) =
       [js ''c1__flush'']
   \<and> map channel (requests (run alwaysFinds
         [AgentEnd (chatEvent ''c1'' 0 4) (js ''t0''), TimeoutFires 0])) = [js ''c1'']
   \<and> map channel (requests (run alwaysFinds
         [AgentEnd (chatEvent ''c1'' 0 4) (js ''t0''), ServiceStop])) = [js ''c1'']"
  by code_simp

text \<open>
  Claim C7: after an overflow flush the live buffer of the channel holds exactly
  the last 4 messages of the buffer as it was before the flush, in their order,
  and it holds them already when \<open>flushBuffer\<close> is called with the temporary key,
  so it is not empty while the extraction call runs.
\<close>

theorem overflow_reseeds_last_four:
  assumes "newMessagesOf ev now \<noteq> []"
    and "MAX_BUFFER_SIZE \<le> length (bufferOrEmpty s (getChannelKey ev) @ newMessagesOf ev now)"
  shows "agent_end api ev now s =
       flushBuffer api (tempKeyOf (getChannelKey ev))
         (overflowSwap (getChannelKey ev)
            (bufferOrEmpty s (getChannelKey ev) @ newMessagesOf ev now)
            (appendAndClear (getChannelKey ev) (newMessagesOf ev now) s))
     \<and> bufferOf (overflowSwap (getChannelKey ev)
            (bufferOrEmpty s (getChannelKey ev) @ newMessagesOf ev now)
            (appendAndClear (getChannelKey ev) (newMessagesOf ev now) s)) (getChannelKey ev) =
         Some (sliceLast4 (bufferOrEmpty s (getChannelKey ev) @ newMessagesOf ev now))
     \<and> bufferOf (agent_end api ev now s) (getChannelKey ev) =
         Some (sliceLast4 (bufferOrEmpty s (getChannelKey ev) @ newMessagesOf ev now))
     \<and> take (length (bufferOrEmpty s (getChannelKey ev) @ newMessagesOf ev now) - 4)
           (bufferOrEmpty s (getChannelKey ev) @ newMessagesOf ev now)
         @ sliceLast4 (bufferOrEmpty s (getChannelKey ev) @ newMessagesOf ev now) =
         bufferOrEmpty s (getChannelKey ev) @ newMessagesOf ev now
     \<and> length (sliceLast4 (bufferOrEmpty s (getChannelKey ev) @ newMessagesOf ev now)) = 4"
proof -
  let ?b = "bufferOrEmpty s (getChannelKey ev) @ newMessagesOf ev now"
  have "4 \<le> length ?b" using assms(2) by (simp add: MAX_BUFFER_SIZE_def)
  then have "length (sliceLast4 ?b) = 4" by (rule length_sliceLast4)
  moreover note agent_end_overflow [OF assms, of api] overflow_live_buffer
    sliceLast4_suffix [of ?b]
  ultimately show ?thesis by simp
qed

theorem overflow_reseeds_last_four_witness:
  "bufferOf (agent_end alwaysFails (chatEvent ''c1'' 0 20) (js ''t0'') initialState) (js ''c1'') =
     Some (map buffered [16..<20])
   \<and> bufferOf (overflowSwap (js ''c1'') (map buffered [0..<20])
        (appendAndClear (js ''c1'') (map buffered [0..<20]) initialState)) (js ''c1'') =
     Some (map buffered [16..<20])"
proof -
  have a: "newMessagesOf (chatEvent ''c1'' 0 20) (js ''t0'') \<noteq> []"
    by code_simp
  have b: "MAX_BUFFER_SIZE \<le> length (bufferOrEmpty initialState (getChannelKey (chatEvent ''c1'' 0 20))
      @ newMessagesOf (chatEvent ''c1'' 0 20) (js ''t0''))"
    by code_simp
  have c: "bufferOrEmpty initialState (js ''c1'') = []"
    by code_simp
  have c': "newMessagesOf (chatEvent ''c1'' 0 20) (js ''t0'') = map buffered [0..<20]"
    by code_simp
  have d: "getChannelKey (chatEvent ''c1'' 0 20) = js ''c1''"
    by code_simp
  have e: "sliceLast4 (map buffered [0..<20]) = map buffered [16..<20]"
    by code_simp
  from overflow_reseeds_last_four [OF a b, of alwaysFails] show ?thesis
    unfolding d c' c append_Nil e by blast
qed

section \<open>An event with more messages than \<open>MAX_BUFFER_SIZE\<close>\<close>

lemma overflow_temp_buffer:
  "bufferOf (overflowSwap k buffer s) (tempKeyOf k) = Some buffer"
  by (simp add: bufferOf_def update_conv')

text \<open>
  Claim C10, as stated: \<open>MAX_BUFFER_SIZE\<close> bounds neither the buffer length between
  events nor the size of a flushed batch.  The batch is indeed unbounded, and the
  buffer of the channel exceeds the maximum inside the hook; but the hook cuts it
  back.  After one event with 25 messages, handled to its end, the batch has 25
  messages and the buffer of the channel has 4.
\<close>

theorem buffer_is_cut_back_after_oversized_event:
  "length (newMessagesOf (chatEvent ''c1'' 0 25) (js ''t0'')) = 25
   \<and> bufferOf (run alwaysFinds [AgentEnd (chatEvent ''c1'' 0 25) (js ''t0'')]) (js ''c1'') =
       Some (map buffered [21..<25])
   \<and> map (\<lambda>p. length (snd p))
       (messageBuffers (run alwaysFinds [AgentEnd (chatEvent ''c1'' 0 25) (js ''t0'')])) = [4]
   \<and> map (\<lambda>r. length (messages r))
       (requests (run alwaysFinds [AgentEnd (chatEvent ''c1'' 0 25) (js ''t0'')])) = [25]"
  by code_simp

text \<open>
  Claim C10, amended: the overflow check runs after all the qualifying messages
  of the event have been appended, so an event with more than 20 of them makes the
  buffer of the channel exceed \<open>MAX_BUFFER_SIZE\<close> when the check reads it, and the
  batch of the forced flush holds all of them; \<open>MAX_BUFFER_SIZE\<close> bounds neither
  that length nor the size of the batch, nor the copy that the store holds under
  the temporary key when the extraction call is made.  The live buffer of the
  channel itself is cut back to its last 4 messages before that call, and holds
  those 4 when the hook has finished.
\<close>

theorem oversized_event_flushes_everything:
  assumes "MAX_BUFFER_SIZE < length (newMessagesOf ev now)"
  shows "bufferOf (appendAndClear (getChannelKey ev) (newMessagesOf ev now) s) (getChannelKey ev) =
         Some (bufferOrEmpty s (getChannelKey ev) @ newMessagesOf ev now)
     \<and> MAX_BUFFER_SIZE < length (bufferOrEmpty s (getChannelKey ev) @ newMessagesOf ev now)
     \<and> agent_end api ev now s =
         flushBuffer api (tempKeyOf (getChannelKey ev))
           (overflowSwap (getChannelKey ev)
              (bufferOrEmpty s (getChannelKey ev) @ newMessagesOf ev now)
              (appendAndClear (getChannelKey ev) (newMessagesOf ev now) s))
     \<and> bufferOf (overflowSwap (getChannelKey ev)
              (bufferOrEmpty s (getChannelKey ev) @ newMessagesOf ev now)
              (appendAndClear (getChannelKey ev) (newMessagesOf ev now) s))
           (tempKeyOf (getChannelKey ev)) =
         Some (bufferOrEmpty s (getChannelKey ev) @ newMessagesOf ev now)
     \<and> bufferOf (overflowSwap (getChannelKey ev)
              (bufferOrEmpty s (getChannelKey ev) @ newMessagesOf ev now)
              (appendAndClear (getChannelKey ev) (newMessagesOf ev now) s))
           (getChannelKey ev) =
         Some (sliceLast4 (bufferOrEmpty s (getChannelKey ev) @ newMessagesOf ev now))
     \<and> map messages (requests (agent_end api ev now s)) =
         map messages (requests s) @ [bufferOrEmpty s (getChannelKey ev) @ newMessagesOf ev now]
     \<and> bufferOf (agent_end api ev now s) (getChannelKey ev) =
         Some (sliceLast4 (bufferOrEmpty s (getChannelKey ev) @ newMessagesOf ev now))
     \<and> length (sliceLast4 (bufferOrEmpty s (getChannelKey ev) @ newMessagesOf ev now)) = 4"
proof (intro conjI)
  let ?k = "getChannelKey ev"
  let ?b = "bufferOrEmpty s ?k @ newMessagesOf ev now"
  let ?a = "appendAndClear ?k (newMessagesOf ev now) s"
  from assms have n: "newMessagesOf ev now \<noteq> []" by auto
  from assms have m: "MAX_BUFFER_SIZE \<le> length ?b" by simp
  have four: "4 \<le> length ?b" using m by (simp add: MAX_BUFFER_SIZE_def)
  show "bufferOf ?a ?k = Some ?b"
    by (rule appendAndClear_bufferOf)
  show "MAX_BUFFER_SIZE < length ?b"
    using assms by simp
  show "agent_end api ev now s = flushBuffer api (tempKeyOf ?k) (overflowSwap ?k ?b ?a)"
    by (rule agent_end_overflow [OF n m])
  show "bufferOf (overflowSwap ?k ?b ?a) (tempKeyOf ?k) = Some ?b"
    by (rule overflow_temp_buffer)
  show "bufferOf (overflowSwap ?k ?b ?a) ?k = Some (sliceLast4 ?b)"
    by (rule overflow_live_buffer)
  show "map messages (requests (agent_end api ev now s)) = map messages (requests s) @ [?b]"
    using m by (simp add: agent_end_overflow [OF n m] overflow_requests extractRequestFor_def
        del: append_assoc)
  show "bufferOf (agent_end api ev now s) ?k = Some (sliceLast4 ?b)"
    by (simp add: agent_end_overflow [OF n m] overflow_live_buffer del: append_assoc)
  show "length (sliceLast4 ?b) = 4"
    using four by (rule length_sliceLast4)
qed

theorem oversized_event_flushes_everything_witness:
  "map messages (requests (agent_end alwaysFinds (chatEvent ''c1'' 0 25) (js ''t0'') initialState)) =
     [map buffered [0..<25]]
   \<and> bufferOf (agent_end alwaysFinds (chatEvent ''c1'' 0 25) (js ''t0'') initialState) (js ''c1'') =
     Some (map buffered [21..<25])
   \<and> bufferOf (overflowSwap (js ''c1'') (map buffered [0..<25])
        (appendAndClear (js ''c1'') (map buffered [0..<25]) initialState)) (tempKeyOf (js ''c1'')) =
     Some (map buffered [0..<25])"
proof -
  have a: "MAX_BUFFER_SIZE < length (newMessagesOf (chatEvent ''c1'' 0 25) (js ''t0''))"
    by code_simp
  have c: "newMessagesOf (chatEvent ''c1'' 0 25) (js ''t0'') = map buffered [0..<25]"
    by code_simp
  have d: "getChannelKey (chatEvent ''c1'' 0 25) = js ''c1''"
    by code_simp
  have e: "sliceLast4 (map buffered [0..<25]) = map buffered [21..<25]"
    by code_simp
  have f: "requests initialState = []" "bufferOrEmpty initialState (js ''c1'') = []"
    by code_simp+
  from oversized_event_flushes_everything [OF a, of initialState alwaysFinds]
  show ?thesis unfolding c d f list.map append_Nil e by blast
qed

section \<open>The silence timers\<close>

text \<open>
  Claim C8: after any sequence of events every channel key has at most one live
  silence timer.  A timeout that fires is the one \<open>silenceTimers\<close> records for its
  key; its callback deletes that entry before it calls \<open>flushBuffer\<close>, and after it
  the key has no live timer, so arming a new one gives one timer, not two.
\<close>

theorem at_most_one_live_timer:
  "length (liveTimers (run api evs) k) \<le> 1
   \<and> (map_of (pendingTimeouts (run api evs)) h = Some k \<longrightarrow>
        map_of (silenceTimers (run api evs)) k = Some h
        \<and> timeoutFires api h (run api evs) =
            flushBuffer api k (forgetTimer k (clearTimeout h (run api evs)))
        \<and> map_of (silenceTimers (forgetTimer k (clearTimeout h (run api evs)))) k = None
        \<and> liveTimers (forgetTimer k (clearTimeout h (run api evs))) k = []
        \<and> liveTimers (timeoutFires api h (run api evs)) k = [])"
proof -
  let ?s = "run api evs"
  have c: "timersConsistent ?s" by (rule run_consistent)
  have one: "length (liveTimers ?s k) \<le> 1"
    using liveTimers_at_most_one [OF c, of k] by simp
  have fire: "map_of (silenceTimers ?s) k = Some h
        \<and> timeoutFires api h ?s = flushBuffer api k (forgetTimer k (clearTimeout h ?s))
        \<and> map_of (silenceTimers (forgetTimer k (clearTimeout h ?s))) k = None
        \<and> liveTimers (forgetTimer k (clearTimeout h ?s)) k = []
        \<and> liveTimers (timeoutFires api h ?s) k = []"
    if p: "map_of (pendingTimeouts ?s) h = Some k"
  proof -
    from liveTimers_pending_key [OF c p] have r: "map_of (silenceTimers ?s) k = Some h" .
    have e: "timeoutFires api h ?s = flushBuffer api k (forgetTimer k (clearTimeout h ?s))"
      using p by (simp add: timeoutFires_def timerCallback_def)
    have n: "map_of (silenceTimers (forgetTimer k (clearTimeout h ?s))) k = None"
      by (simp add: delete_conv')
    have "liveTimers (clearTimeout h ?s) k = []"
      using c r by (rule liveTimers_clearTimeout)
    then have l: "liveTimers (forgetTimer k (clearTimeout h ?s)) k = []"
      by (simp add: liveTimers_def)
    then have "liveTimers (timeoutFires api h ?s) k = []"
      unfolding e by (simp add: liveTimers_def)
    with r e n l show ?thesis by (intro conjI)
  qed
  from one fire show ?thesis by blast
qed

theorem at_most_one_live_timer_witness:
  "liveTimers (run alwaysFinds [AgentEnd (chatEvent ''c1'' 0 2) (js ''t0''),
                                AgentEnd (chatEvent ''c1'' 2 2) (js ''t0'')]) (js ''c1'') = [1]
   \<and> map_of (silenceTimers (run alwaysFinds [AgentEnd (chatEvent ''c1'' 0 2) (js ''t0''),
                                AgentEnd (chatEvent ''c1'' 2 2) (js ''t0'')])) (js ''c1'') = Some 1
   \<and> liveTimers (timeoutFires alwaysFinds 1
        (run alwaysFinds [AgentEnd (chatEvent ''c1'' 0 2) (js ''t0''),
                          AgentEnd (chatEvent ''c1'' 2 2) (js ''t0'')])) (js ''c1'') = []"
proof -
  have a: "map_of (pendingTimeouts (run alwaysFinds [AgentEnd (chatEvent ''c1'' 0 2) (js ''t0''),
      AgentEnd (chatEvent ''c1'' 2 2) (js ''t0'')])) 1 = Some (js ''c1'')"
    by code_simp
  have b: "liveTimers (run alwaysFinds [AgentEnd (chatEvent ''c1'' 0 2) (js ''t0''),
      AgentEnd (chatEvent ''c1'' 2 2) (js ''t0'')]) (js ''c1'') = [1]"
    by code_simp
  from at_most_one_live_timer
         [of alwaysFinds "[AgentEnd (chatEvent ''c1'' 0 2) (js ''t0''),
            AgentEnd (chatEvent ''c1'' 2 2) (js ''t0'')]" "js ''c1''" 1] a b
  show ?thesis by blast
qed

lemma pending_below_next:
  "timersConsistent s \<Longrightarrow> nextTimeout s \<notin> fst ` set (pendingTimeouts s)"
  by (auto simp add: timersConsistent_def list_all_iff)

lemma liveTimers_subset_pending: "set (liveTimers s k) \<subseteq> fst ` set (pendingTimeouts s)"
  by (auto simp add: liveTimers_def)

lemma appendAndClear_cancels:
  assumes "timersConsistent s"
  shows "set (liveTimers s k) \<inter> fst ` set (pendingTimeouts (appendAndClear k new s)) = {}"
proof (cases "map_of (silenceTimers s) k")
  case None
  with assms show ?thesis by (simp add: liveTimers_unrecorded)
next
  case (Some h)
  from liveTimers_recorded [OF assms Some] have "set (liveTimers s k) \<subseteq> {h}" .
  moreover have "h \<notin> fst ` set (pendingTimeouts (appendAndClear k new s))"
    by (auto simp add: appendAndClear_pending Some AList.delete_eq)
  ultimately show ?thesis by auto
qed

text \<open>
  Claim C4, as the spec states it: after every event that appends a message the
  channel has a live timer.  A first event with 2 messages arms timer 0; a second
  event with 18 more reaches 20, cancels it, flushes and returns without arming
  another: the channel keeps 4 messages and has no timer.
\<close>

theorem overflow_leaves_no_timer:
  "newMessagesOf (chatEvent ''c1'' 2 18) (js ''t0'') \<noteq> []
   \<and> liveTimers (run alwaysFinds [AgentEnd (chatEvent ''c1'' 0 2) (js ''t0'')]) (js ''c1'') = [0]
   \<and> liveTimers (run alwaysFinds [AgentEnd (chatEvent ''c1'' 0 2) (js ''t0''),
                                   AgentEnd (chatEvent ''c1'' 2 18) (js ''t0'')]) (js ''c1'') = []
   \<and> pendingTimeouts (run alwaysFinds [AgentEnd (chatEvent ''c1'' 0 2) (js ''t0''),
                                   AgentEnd (chatEvent ''c1'' 2 18) (js ''t0'')]) = []
   \<and> bufferOf (run alwaysFinds [AgentEnd (chatEvent ''c1'' 0 2) (js ''t0''),
                                AgentEnd (chatEvent ''c1'' 2 18) (js ''t0'')]) (js ''c1'') =
       Some (map buffered [16..<20])"
  by code_simp

text \<open>
  Claim C4, amended: an event that appends at least one message cancels the
  timers the channel had; when the buffer stays below \<open>MAX_BUFFER_SIZE\<close> it arms a
  fresh one, which is then the only live timer of the channel, and when the buffer
  reaches \<open>MAX_BUFFER_SIZE\<close> it arms none.
\<close>

theorem append_rearms_unless_overflow:
  assumes "newMessagesOf ev now \<noteq> []"
  shows "liveTimers (agent_end api ev now (run api evs)) (getChannelKey ev) =
       (if length (bufferOrEmpty (run api evs) (getChannelKey ev) @ newMessagesOf ev now)
             < MAX_BUFFER_SIZE
        then [nextTimeout (run api evs)] else [])
     \<and> set (liveTimers (run api evs) (getChannelKey ev))
         \<inter> fst ` set (pendingTimeouts (agent_end api ev now (run api evs))) = {}
     \<and> nextTimeout (run api evs) \<notin> fst ` set (pendingTimeouts (run api evs))"
proof -
  let ?s = "run api evs" and ?k = "getChannelKey ev" and ?new = "newMessagesOf ev now"
  let ?a = "appendAndClear ?k ?new ?s"
  let ?b = "bufferOrEmpty ?s ?k @ ?new"
  have c: "timersConsistent ?s" by (rule run_consistent)
  from appendAndClear_consistent [OF c, of ?k ?new]
  have ca: "timersConsistent ?a" and la: "liveTimers ?a ?k = []" by simp_all
  note cancel = appendAndClear_cancels [OF c, of ?k ?new]
  have fresh: "nextTimeout ?s \<notin> fst ` set (pendingTimeouts ?s)"
    using c by (rule pending_below_next)
  have old: "nextTimeout ?s \<notin> set (liveTimers ?s ?k)"
    using fresh liveTimers_subset_pending [of ?s ?k] by auto
  show ?thesis
  proof (cases "length ?b < MAX_BUFFER_SIZE")
    case True
    with assms have e: "agent_end api ev now ?s = armSilenceTimer ?k ?a"
      by (simp add: agent_end_arm)
    have l: "liveTimers (agent_end api ev now ?s) ?k = [nextTimeout ?s]"
      unfolding e using la by (simp add: liveTimers_armSilenceTimer)
    have "set (liveTimers ?s ?k) \<inter> fst ` set (pendingTimeouts (agent_end api ev now ?s)) = {}"
      unfolding e using cancel old by auto
    with l fresh True show ?thesis by simp
  next
    case False
    with assms have e: "agent_end api ev now ?s =
        flushBuffer api (tempKeyOf ?k) (overflowSwap ?k ?b ?a)"
      by (simp add: agent_end_overflow not_less)
    have p: "pendingTimeouts (agent_end api ev now ?s) = pendingTimeouts ?a"
      unfolding e by simp
    have l: "liveTimers (agent_end api ev now ?s) ?k = []"
      using la liveTimers_same [OF p, of ?k] by simp
    from cancel p l fresh False show ?thesis by simp
  qed
qed

theorem append_rearms_unless_overflow_witness:
  "liveTimers (agent_end alwaysFinds (chatEvent ''c1'' 2 2) (js ''t0'')
       (run alwaysFinds [AgentEnd (chatEvent ''c1'' 0 2) (js ''t0'')])) (js ''c1'') = [1]
   \<and> liveTimers (run alwaysFinds [AgentEnd (chatEvent ''c1'' 0 2) (js ''t0'')]) (js ''c1'') = [0]"
proof -
  have a: "newMessagesOf (chatEvent ''c1'' 2 2) (js ''t0'') \<noteq> []"
    by code_simp
  have b: "length (bufferOrEmpty (run alwaysFinds [AgentEnd (chatEvent ''c1'' 0 2) (js ''t0'')])
          (getChannelKey (chatEvent ''c1'' 2 2)) @ newMessagesOf (chatEvent ''c1'' 2 2) (js ''t0''))
      < MAX_BUFFER_SIZE"
    by code_simp
  have c: "nextTimeout (run alwaysFinds [AgentEnd (chatEvent ''c1'' 0 2) (js ''t0'')]) = 1"
    by code_simp
  have d: "getChannelKey (chatEvent ''c1'' 2 2) = js ''c1''"
    by code_simp
  have e: "liveTimers (run alwaysFinds [AgentEnd (chatEvent ''c1'' 0 2) (js ''t0'')]) (js ''c1'') = [0]"
    by code_simp
  from append_rearms_unless_overflow
         [OF a, of alwaysFinds "[AgentEnd (chatEvent ''c1'' 0 2) (js ''t0'')]"] b c d e
  show ?thesis by simp
qed

section \<open>Shutdown\<close>

lemma stopVisit_buffers [simp]:
  "messageBuffers (stopVisit api k s) = AList.delete k (messageBuffers s)"
  by (simp add: stopVisit_def split: option.splits)

lemma stopVisit_fields [simp]:
  "nextTimeout (stopVisit api k s) = nextTimeout s"
  by (simp add: stopVisit_def split: option.splits)

lemma stopVisit_requests:
  "requests (stopVisit api k s) =
     requests s @ (case map_of (messageBuffers s) k of
                     None \<Rightarrow> []
                   | Some msgs \<Rightarrow> if length msgs < 4 then [] else [extractRequestFor k msgs])"
  by (cases "map_of (silenceTimers s) k") (simp_all add: stopVisit_def flushBuffer_requests)

lemma keys_after_delete:
  assumes "set ks \<subseteq> fst ` set al" and "k \<notin> set ks"
  shows "set ks \<subseteq> fst ` set (AList.delete k al)"
proof
  fix x assume x: "x \<in> set ks"
  with assms(1) obtain v where "(x, v) \<in> set al" by auto
  moreover from x assms(2) have "x \<noteq> k" by auto
  ultimately have "(x, v) \<in> set (AList.delete k al)" by (simp add: AList.delete_eq)
  then show "x \<in> fst ` set (AList.delete k al)" by force
qed

lemma stopLoop_buffers:
  "messageBuffers (stopLoop api ks s) = filter (\<lambda>p. fst p \<notin> set ks) (messageBuffers s)"
proof (induction ks arbitrary: s)
  case Nil
  show ?case by simp
next
  case (Cons k ks)
  show ?case
  proof (cases "map_of (messageBuffers s) k")
    case None
    then have "\<forall>p\<in>set (messageBuffers s). fst p \<noteq> k"
      by (auto simp add: map_of_eq_None_iff)
    then have "filter (\<lambda>p. fst p \<notin> set (k # ks)) (messageBuffers s) =
        filter (\<lambda>p. fst p \<notin> set ks) (messageBuffers s)"
      by (intro filter_cong) auto
    with None Cons.IH [of s] show ?thesis by simp
  next
    case (Some msgs)
    have "filter (\<lambda>p. fst p \<notin> set ks) (AList.delete k (messageBuffers s)) =
        filter (\<lambda>p. fst p \<notin> set (k # ks)) (messageBuffers s)"
      by (induction "messageBuffers s") (auto simp add: AList.delete_eq intro: filter_cong)
    with Some Cons.IH [of "stopVisit api k s"] show ?thesis by simp
  qed
qed

lemma stopLoop_requests:
  assumes "distinct (map fst kvs)"
    and "list_all (\<lambda>p. map_of (messageBuffers s) (fst p) = Some (snd p)) kvs"
  shows "requests (stopLoop api (map fst kvs) s) =
     requests s @ map (\<lambda>p. extractRequestFor (fst p) (snd p))
                    (filter (\<lambda>p. 4 \<le> length (snd p)) kvs)"
  using assms
proof (induction kvs arbitrary: s)
  case Nil
  show ?case by simp
next
  case (Cons kv kvs)
  obtain k msgs where kv: "kv = (k, msgs)" by (cases kv)
  from Cons.prems kv have here: "map_of (messageBuffers s) k = Some msgs" by simp
  from Cons.prems kv have d: "distinct (map fst kvs)" and nk: "k \<notin> fst ` set kvs" by auto
  have rest: "list_all (\<lambda>p. map_of (messageBuffers (stopVisit api k s)) (fst p) = Some (snd p)) kvs"
    using Cons.prems(2) nk by (auto simp add: list_all_iff delete_conv')
  from Cons.IH [OF d rest] here kv show ?case
    by (auto simp add: stopVisit_requests not_less)
qed

lemma stopLoop_visits_all:
  assumes "distinct ks" and "set ks \<subseteq> fst ` set (messageBuffers s)"
  shows "stopLoop api ks s = foldl (\<lambda>t k. stopVisit api k t) s ks"
  using assms
proof (induction ks arbitrary: s)
  case Nil
  show ?case by simp
next
  case (Cons k ks)
  from Cons.prems have "map_of (messageBuffers s) k \<noteq> None"
    by (simp add: map_of_eq_None_iff)
  then obtain msgs where here: "map_of (messageBuffers s) k = Some msgs" by auto
  from Cons.prems have "set ks \<subseteq> fst ` set (messageBuffers (stopVisit api k s))"
    by (simp add: keys_after_delete)
  with Cons.prems Cons.IH [of "stopVisit api k s"] here show ?case by simp
qed

lemma stopVisit_pending_subset:
  "set (pendingTimeouts (stopVisit api k s)) \<subseteq> set (pendingTimeouts s)"
  by (auto simp add: stopVisit_def AList.delete_eq split: option.splits)

lemma stopLoop_pending_subset:
  "set (pendingTimeouts (stopLoop api ks s)) \<subseteq> set (pendingTimeouts s)"
proof (induction ks arbitrary: s)
  case Nil
  show ?case by simp
next
  case (Cons k ks)
  from Cons.IH [of s] Cons.IH [of "stopVisit api k s"] stopVisit_pending_subset [of api k s]
  show ?case by auto
qed

lemma liveTimers_empty_iff: "liveTimers s k = [] \<longleftrightarrow> k \<notin> snd ` set (pendingTimeouts s)"
  by (auto simp add: liveTimers_def filter_empty_conv)

lemma stopLoop_keeps_cancelled:
  "liveTimers s k = [] \<Longrightarrow> liveTimers (stopLoop api ks s) k = []"
  using stopLoop_pending_subset [of api ks s] by (auto simp add: liveTimers_empty_iff)

lemma stopLoop_cancels:
  assumes "timersConsistent s" and "distinct ks" and "set ks \<subseteq> fst ` set (messageBuffers s)"
  shows "list_all (\<lambda>k. liveTimers (stopLoop api ks s) k = []) ks"
  using assms
proof (induction ks arbitrary: s)
  case Nil
  show ?case by simp
next
  case (Cons k ks)
  let ?t = "stopVisit api k s"
  from Cons.prems have "map_of (messageBuffers s) k \<noteq> None"
    by (simp add: map_of_eq_None_iff)
  then obtain msgs where here: "map_of (messageBuffers s) k = Some msgs" by auto
  from stopVisit_consistent [OF Cons.prems(1), of api k]
  have c: "timersConsistent ?t" and l: "liveTimers ?t k = []" by simp_all
  from l have first: "liveTimers (stopLoop api ks ?t) k = []" by (rule stopLoop_keeps_cancelled)
  from Cons.prems have d: "distinct ks" and "k \<notin> set ks" by simp_all
  with Cons.prems have "set ks \<subseteq> fst ` set (messageBuffers ?t)"
    by (simp add: keys_after_delete)
  from Cons.IH [OF c d this] first here show ?case by simp
qed

lemma agent_end_buffers_distinct:
  assumes "distinct (map fst (messageBuffers s))"
  shows "distinct (map fst (messageBuffers (agent_end api ev now s)))"
  using agent_end_cases [of ev now api s] assms
  by (elim disjE conjE)
     (simp_all add: appendAndClear_buffers distinct_update distinct_delete del: append_assoc)

lemma timeoutFires_buffers_distinct:
  "distinct (map fst (messageBuffers s)) \<Longrightarrow>
   distinct (map fst (messageBuffers (timeoutFires api h s)))"
  by (simp add: timeoutFires_def timerCallback_def distinct_delete split: option.splits)

lemma stop_buffers [simp]: "messageBuffers (stop api s) = []"
proof -
  have "filter (\<lambda>p. fst p \<notin> fst ` set (messageBuffers s)) (messageBuffers s) = []"
    by (simp add: filter_empty_conv)
  then show ?thesis by (simp add: stop_def Let_def stopLoop_buffers)
qed

lemma handle_buffers_distinct:
  "distinct (map fst (messageBuffers s)) \<Longrightarrow> distinct (map fst (messageBuffers (handle api s e)))"
  by (cases e) (simp_all add: agent_end_buffers_distinct timeoutFires_buffers_distinct)

lemma foldl_handle_buffers_distinct:
  "distinct (map fst (messageBuffers s)) \<Longrightarrow>
   distinct (map fst (messageBuffers (foldl (handle api) s evs)))"
  by (induction evs arbitrary: s) (simp_all add: handle_buffers_distinct)

lemma run_buffers_distinct: "distinct (map fst (messageBuffers (run api evs)))"
  unfolding run_def
  by (rule foldl_handle_buffers_distinct) (simp add: initialState_def)

lemma stop_fields [simp]:
  "requests (stop api s) = requests (stopLoop api (map fst (messageBuffers s)) s)"
  "pendingTimeouts (stop api s) = pendingTimeouts (stopLoop api (map fst (messageBuffers s)) s)"
  by (simp_all add: stop_def Let_def)

text \<open>
  Claim C9: the \<open>stop\<close> handler visits every buffered channel once, in the order
  of the keys in the buffer store, cancelling the channel's timer and then flushing
  it before it goes on to the next.  So the calls it makes are one per buffer of at
  least 4 messages, in key order, with that buffer; the shorter buffers are
  dropped without a call; no buffer is left and no visited channel has a live
  timer.
\<close>

theorem stop_drains_in_key_order:
  "stop api (run api evs) =
     (foldl (\<lambda>t k. stopVisit api k t) (run api evs) (map fst (messageBuffers (run api evs))))
       \<lparr>logged := logged (foldl (\<lambda>t k. stopVisit api k t) (run api evs)
                          (map fst (messageBuffers (run api evs)))) @ [ServiceStopped]\<rparr>
   \<and> requests (stop api (run api evs)) =
       requests (run api evs)
       @ map (\<lambda>p. extractRequestFor (fst p) (snd p))
           (filter (\<lambda>p. 4 \<le> length (snd p)) (messageBuffers (run api evs)))
   \<and> messageBuffers (stop api (run api evs)) = []
   \<and> list_all (\<lambda>k. liveTimers (stop api (run api evs)) k = [])
        (map fst (messageBuffers (run api evs)))"
proof -
  let ?s = "run api evs"
  let ?ks = "map fst (messageBuffers ?s)"
  have d: "distinct ?ks" by (rule run_buffers_distinct)
  have all: "stopLoop api ?ks ?s = foldl (\<lambda>t k. stopVisit api k t) ?s ?ks"
    using d by (intro stopLoop_visits_all) simp_all
  have "list_all (\<lambda>p. map_of (messageBuffers ?s) (fst p) = Some (snd p)) (messageBuffers ?s)"
    using d by (simp add: list_all_iff)
  with d have r: "requests (stopLoop api ?ks ?s) =
      requests ?s @ map (\<lambda>p. extractRequestFor (fst p) (snd p))
                      (filter (\<lambda>p. 4 \<le> length (snd p)) (messageBuffers ?s))"
    by (rule stopLoop_requests)
  have "list_all (\<lambda>k. liveTimers (stopLoop api ?ks ?s) k = []) ?ks"
    using run_consistent d by (rule stopLoop_cancels) simp
  then have t: "list_all (\<lambda>k. liveTimers (stop api ?s) k = []) ?ks"
    by (simp add: liveTimers_def)
  have e: "stop api ?s =
      (foldl (\<lambda>t k. stopVisit api k t) ?s ?ks)
        \<lparr>logged := logged (foldl (\<lambda>t k. stopVisit api k t) ?s ?ks) @ [ServiceStopped]\<rparr>"
    using all by (simp add: stop_def Let_def)
  have r': "requests (stop api ?s) =
      requests ?s @ map (\<lambda>p. extractRequestFor (fst p) (snd p))
                      (filter (\<lambda>p. 4 \<le> length (snd p)) (messageBuffers ?s))"
    using r by simp
  have b: "messageBuffers (stop api ?s) = []" by simp
  from e r' b t show ?thesis by (intro conjI)
qed

theorem stop_drains_in_key_order_witness:
  "requests (stop alwaysFinds (run alwaysFinds [AgentEnd (chatEvent ''A'' 0 5) (js ''t0''),
                                                AgentEnd (chatEvent ''B'' 0 2) (js ''t0'')])) =
     [extractRequestFor (js ''A'') (map buffered [0..<5])]
   \<and> messageBuffers (stop alwaysFinds (run alwaysFinds [AgentEnd (chatEvent ''A'' 0 5) (js ''t0''),
                                                AgentEnd (chatEvent ''B'' 0 2) (js ''t0'')])) = []
   \<and> liveTimers (stop alwaysFinds (run alwaysFinds [AgentEnd (chatEvent ''A'' 0 5) (js ''t0''),
                                                AgentEnd (chatEvent ''B'' 0 2) (js ''t0'')])) (js ''A'') = []
   \<and> liveTimers (stop alwaysFinds (run alwaysFinds [AgentEnd (chatEvent ''A'' 0 5) (js ''t0''),
                                                AgentEnd (chatEvent ''B'' 0 2) (js ''t0'')])) (js ''B'') = []"
proof -
  have a: "messageBuffers (run alwaysFinds [AgentEnd (chatEvent ''A'' 0 5) (js ''t0''),
      AgentEnd (chatEvent ''B'' 0 2) (js ''t0'')]) =
      [(js ''A'', map buffered [0..<5]), (js ''B'', map buffered [0..<2])]"
    by code_simp
  have b: "requests (run alwaysFinds [AgentEnd (chatEvent ''A'' 0 5) (js ''t0''),
      AgentEnd (chatEvent ''B'' 0 2) (js ''t0'')]) = []"
    by code_simp
  note th = stop_drains_in_key_order
         [of alwaysFinds "[AgentEnd (chatEvent ''A'' 0 5) (js ''t0''),
            AgentEnd (chatEvent ''B'' 0 2) (js ''t0'')]"]
  have r: "requests (stop alwaysFinds (run alwaysFinds [AgentEnd (chatEvent ''A'' 0 5) (js ''t0''),
      AgentEnd (chatEvent ''B'' 0 2) (js ''t0'')])) =
      [extractRequestFor (js ''A'') (map buffered [0..<5])]"
    using th [THEN conjunct2, THEN conjunct1] unfolding a b by simp
  have t: "list_all (\<lambda>k. liveTimers (stop alwaysFinds (run alwaysFinds
      [AgentEnd (chatEvent ''A'' 0 5) (js ''t0''), AgentEnd (chatEvent ''B'' 0 2) (js ''t0'')])) k = [])
      [js ''A'', js ''B'']"
    using th [THEN conjunct2, THEN conjunct2, THEN conjunct2] unfolding a by simp
  from r t th [THEN conjunct2, THEN conjunct2, THEN conjunct1]
  show ?thesis by simp
qed

end
